theory Spec2Isabelle
  imports Main "HOL-Library.Sublist"
begin

section \<open>The Ledger signer adapter (src/main/signers/ledger/adapter.ts)\<close>

text \<open>
  The adapter keeps two arrays, \<open>knownSigners\<close> (references to Ledger objects) and
  \<open>disconnections\<close> (one entry per armed removal timer), and a field \<open>observer\<close>.
  The Ledger objects are shared between the registry and the closures of the timers,
  so they live in an explicit store: a reference is an index into \<open>heap\<close>, and an
  object is never freed. The runtime around the adapter is part of the state as well:
  the timers that are armed (in the order they were set; every one has the same delay
  of 5000 ms, so this is also the order in which they fire) and the counters from
  which fresh timer handles and fresh ids are taken.

  Every handler returns the new state and the list of effects it caused, in order:
  notifications emitted by the adapter, calls of methods of a Ledger object, a logged
  error. What the platform answers during a handler (the HID enumeration, the values
  of the store, whether \<open>open()\<close> succeeds) is an argument of the handler. The calls of
  \<open>log.debug\<close> and \<open>console.log\<close> are left out. \<open>handleAttachedDevice\<close> is \<open>async\<close>: all
  it does to the adapter happens before its first \<open>await\<close>, and the call of
  \<open>connect()\<close> that follows the \<open>await\<close> is listed with the effects of the handler.

  The grace window of a detach is the stretch between the detach event and the event
  \<open>Timeout\<close> at which its timer fires.
\<close>

subsection \<open>Data\<close>

type_synonym ref = nat

text \<open>The fields of a Ledger object that the adapter reads or writes.\<close>

record Ledger =
  ledger_id :: nat
  devicePath :: string
  model :: string
  derivation :: string
  accountLimit :: int

text \<open>An element of \<open>getLedgerDevices()\<close>; its \<open>path\<close> may be undefined.\<close>

record HidDevice =
  path :: "string option"

text \<open>The argument of the two hot-plug handlers; only its \<open>id\<close> is read.\<close>

record DeviceModel =
  usb_id :: string

text \<open>An element of \<open>disconnections\<close>: \<open>{ devicePath, timeout }\<close>.\<close>

record disconnection =
  pd_devicePath :: string
  timeout :: nat

text \<open>The two values the adapter reads from the store.\<close>

record store =
  main_ledger_derivation :: string
  main_ledger_liveAccountLimit :: int

datatype signal = Sig_update | Sig_error | Sig_lock | Sig_close | Sig_unlock

datatype effect =
    Emit_add ref
  | Emit_remove nat
  | Emit_update ref
  | Call_open ref
  | Call_connect ref
  | Call_disconnect ref
  | Call_close ref
  | Call_deriveAddresses ref
  | Log_error
  | Observer_remove nat
  | Super_open
  | Super_close
  | Thrown_TypeError

datatype error = TypeError

record adapter =
  knownSigners :: "ref list"
  disconnections :: "disconnection list"
  observer :: "nat option"
  heap :: "Ledger list"
  timers :: "(nat \<times> ref) list"
  next_timer :: nat
  ids_issued :: nat

text \<open>The constructor (lines 27-32); nothing is allocated and no timer is armed.\<close>

definition adapter_init :: adapter where
  "adapter_init =
     \<lparr>knownSigners = [], disconnections = [], observer = None,
      heap = [], timers = [], next_timer = 0, ids_issued = 0\<rparr>"

subsection \<open>The array operations of the source\<close>

text \<open>\<open>Array.prototype.findIndex\<close> and \<open>indexOf\<close>: the index of the first match, or -1.\<close>

fun findIndex :: "('a \<Rightarrow> bool) \<Rightarrow> 'a list \<Rightarrow> int" where
  "findIndex P [] = - 1"
| "findIndex P (x # xs) =
     (if P x then 0
      else (let i = findIndex P xs in if i < 0 then - 1 else i + 1))"

definition indexOf :: "'a \<Rightarrow> 'a list \<Rightarrow> int" where
  "indexOf x xs = findIndex (\<lambda>y. y = x) xs"

text \<open>
  The array after \<open>xs.splice(start, deleteCount)\<close>: a negative \<open>start\<close> counts from
  the end of the array, so \<open>splice(-1, 1)\<close> deletes the last element.
\<close>

definition splice :: "int \<Rightarrow> nat \<Rightarrow> 'a list \<Rightarrow> 'a list" where
  "splice start deleteCount xs =
     (let len = int (length xs);
          k = nat (if start < 0 then max (len + start) 0 else min start len)
      in take k xs @ drop (k + deleteCount) xs)"

text \<open>\<open>xs.pop()\<close>: the last element and the array without it, or undefined.\<close>

definition pop :: "'a list \<Rightarrow> ('a \<times> 'a list) option" where
  "pop xs = (if xs = [] then None else Some (last xs, butlast xs))"

text \<open>\<open>clearTimeout\<close>: the timer is no longer armed; a timer that has fired is not there.\<close>

definition clearTimeout :: "nat \<Rightarrow> (nat \<times> ref) list \<Rightarrow> (nat \<times> ref) list" where
  "clearTimeout t ts = filter (\<lambda>p. fst p \<noteq> t) ts"

subsection \<open>The Ledger class\<close>

text \<open>
  Modelled from the spec: the enum \<open>Derivation\<close> of \<open>../Signer/derive\<close> is not in src/.
  The observer (line 42) compares the same field with the literal \<open>'live'\<close>.
\<close>

definition Derivation_live :: string where
  "Derivation_live = ''live''"

text \<open>
  Modelled from the spec: the constructor of class \<open>Ledger\<close> (\<open>./Ledger\<close> is not in src/).
  It stores the device path and the model it is given and assigns the \<open>id\<close>, once, a
  value that no handle had before. The derivation fields are written by
  \<open>updateDerivation\<close> before \<open>handleAttachedDevice\<close> returns (line 124).
\<close>

definition Ledger_new :: "nat \<Rightarrow> string \<Rightarrow> string \<Rightarrow> Ledger" where
  "Ledger_new fresh p m =
     \<lparr>ledger_id = fresh, devicePath = p, model = m, derivation = [], accountLimit = 0\<rparr>"

text \<open>
  The listeners that \<open>handleAttachedDevice\<close> registers on a new Ledger (lines 105-117):
  what the adapter does when the object raises one of its signals.
\<close>

fun listeners :: "Ledger list \<Rightarrow> ref \<Rightarrow> signal \<Rightarrow> effect list" where
  "listeners h ledger Sig_update = [Emit_update ledger]"
| "listeners h ledger Sig_error = [Emit_update ledger]"
| "listeners h ledger Sig_lock = [Emit_update ledger]"
| "listeners h ledger Sig_close = [Emit_remove (ledger_id (h ! ledger))]"
| "listeners h ledger Sig_unlock = [Call_connect ledger]"

text \<open>
  Modelled from the spec: the method \<open>close()\<close> of class \<open>Ledger\<close> is not in src/. The
  specification lists \<open>close\<close> among the signals of a handle and, in its scenario B, has
  one call of \<open>close()\<close> go with one \<open>remove\<close> notification; in the adapter the only
  source of \<open>remove\<close> is the listener of the \<open>close\<close> signal (line 111). So \<open>close()\<close>
  is taken to raise this signal, once.
\<close>

definition Ledger_close :: "Ledger list \<Rightarrow> ref \<Rightarrow> effect list" where
  "Ledger_close h ledger = Call_close ledger # listeners h ledger Sig_close"

subsection \<open>updateDerivation (lines 15-20)\<close>

text \<open>
  An argument that is left out is \<open>None\<close> and takes its default: the derivation of the
  store, and 0. \<open>a || b\<close> on numbers is \<open>b\<close> when \<open>a\<close> is 0.
\<close>

definition updateDerivation :: "store \<Rightarrow> Ledger \<Rightarrow> string option \<Rightarrow> int option \<Rightarrow> Ledger" where
  "updateDerivation st ledger derivation_arg accountLimit_arg =
     (let d = (case derivation_arg of None \<Rightarrow> main_ledger_derivation st | Some x \<Rightarrow> x);
          n = (case accountLimit_arg of None \<Rightarrow> 0 | Some x \<Rightarrow> x);
          liveAccountLimit =
            (if n \<noteq> 0 then n
             else if d = Derivation_live then main_ledger_liveAccountLimit st else 0)
      in ledger\<lparr>derivation := d, accountLimit := liveAccountLimit\<rparr>)"

subsection \<open>open, the observer, close (lines 34-57)\<close>

text \<open>The condition of the observer (lines 41-42).\<close>

definition observer_guard :: "store \<Rightarrow> Ledger \<Rightarrow> bool" where
  "observer_guard st ledger \<longleftrightarrow>
     derivation ledger \<noteq> main_ledger_derivation st \<or>
     (derivation ledger = ''live'' \<and> accountLimit ledger \<noteq> main_ledger_liveAccountLimit st)"

text \<open>The \<open>forEach\<close> of the observer over the registry, in order (lines 39-47).\<close>

fun forEach_ledger :: "store \<Rightarrow> ref list \<Rightarrow> Ledger list \<Rightarrow> Ledger list \<times> effect list" where
  "forEach_ledger st [] h = (h, [])"
| "forEach_ledger st (ledger # rest) h =
     (if observer_guard st (h ! ledger) then
        (let h1 = h[ledger := updateDerivation st (h ! ledger)
                     (Some (main_ledger_derivation st)) (Some (main_ledger_liveAccountLimit st))];
             (h2, out) = forEach_ledger st rest h1
         in (h2, Call_deriveAddresses ledger # out))
      else forEach_ledger st rest h)"

text \<open>The callback given to \<open>store.observer\<close> (lines 35-48), run on a notification.\<close>

definition observer_callback :: "store \<Rightarrow> adapter \<Rightarrow> adapter \<times> effect list" where
  "observer_callback st s =
     (let (h, out) = forEach_ledger st (knownSigners s) (heap s)
      in (s\<lparr>heap := h\<rparr>, out))"

text \<open>\<open>open()\<close>: \<open>ob\<close> is the subscription that \<open>store.observer\<close> returns.\<close>

definition open_adapter :: "nat \<Rightarrow> adapter \<Rightarrow> adapter \<times> effect list" where
  "open_adapter ob s = (s\<lparr>observer := Some ob\<rparr>, [Super_open])"

text \<open>
  \<open>close()\<close>: \<open>this.observer.remove()\<close> reads a property of \<open>undefined\<close> when the field
  was never assigned, which throws a TypeError before anything else happens.
\<close>

definition close_adapter :: "adapter \<Rightarrow> error + adapter \<times> effect list" where
  "close_adapter s =
     (case observer s of
        None \<Rightarrow> Inl TypeError
      | Some ob \<Rightarrow> Inr (s, [Observer_remove ob, Super_close]))"

subsection \<open>handleAttachedDevice (lines 69-128, 163-169)\<close>

definition getAttachedDevicePath :: "HidDevice list \<Rightarrow> string list \<Rightarrow> string" where
  "getAttachedDevicePath devices knownDevicePaths =
     (case find (\<lambda>d. (case path d of None \<Rightarrow> [] | Some p \<Rightarrow> p) \<notin> set knownDevicePaths) devices of
        None \<Rightarrow> []
      | Some hid \<Rightarrow> (case path hid of None \<Rightarrow> [] | Some p \<Rightarrow> p))"

text \<open>
  Lines 96-127, once the path is resolved. \<open>open_ok\<close> says whether the promise of
  \<open>ledger.open()\<close> is fulfilled; \<open>connect()\<close> is called only then.
\<close>

definition attach_resolved :: "store \<Rightarrow> bool \<Rightarrow> DeviceModel \<Rightarrow> string \<Rightarrow> adapter \<Rightarrow> adapter \<times> effect list" where
  "attach_resolved st open_ok usbDevice p s =
     (let existingDeviceIndex = findIndex (\<lambda>r. devicePath (heap s ! r) = p) (knownSigners s);
          calls = (\<lambda>ledger. Call_open ledger # (if open_ok then [Call_connect ledger] else []))
      in if existingDeviceIndex \<ge> 0 then
           (let ledger = knownSigners s ! nat existingDeviceIndex
            in (s\<lparr>heap := (heap s)[ledger := updateDerivation st (heap s ! ledger) None None]\<rparr>,
                calls ledger))
         else
           (let ledger = length (heap s);
                obj = Ledger_new (ids_issued s) p (usb_id usbDevice)
            in (s\<lparr>heap := heap s @ [updateDerivation st obj None None],
                   ids_issued := Suc (ids_issued s),
                   knownSigners := knownSigners s @ [ledger]\<rparr>,
                Emit_add ledger # calls ledger)))"

definition handleAttachedDevice :: "store \<Rightarrow> HidDevice list \<Rightarrow> bool \<Rightarrow> DeviceModel \<Rightarrow> adapter \<Rightarrow> adapter \<times> effect list" where
  "handleAttachedDevice st devices open_ok usbDevice s =
     (let knownPaths = map (\<lambda>d. devicePath (heap s ! d)) (knownSigners s);
          p = getAttachedDevicePath devices knownPaths
      in if p = [] then
           (case pop (disconnections s) of
              None \<Rightarrow> (s, [Log_error])
            | Some (pendingDisconnection, rest) \<Rightarrow>
                attach_resolved st open_ok usbDevice (pd_devicePath pendingDisconnection)
                  (s\<lparr>disconnections := rest,
                     timers := clearTimeout (timeout pendingDisconnection) (timers s)\<rparr>))
         else attach_resolved st open_ok usbDevice p s)"

subsection \<open>handleDetachedDevice (lines 130-161, 171-182)\<close>

definition getDetachedSigner :: "HidDevice list \<Rightarrow> DeviceModel \<Rightarrow> adapter \<Rightarrow> ref option" where
  "getDetachedSigner attachedDevices usbDevice s =
     find (\<lambda>signer. model (heap s ! signer) = usb_id usbDevice \<and>
                    \<not> list_ex (\<lambda>device. path device = Some (devicePath (heap s ! signer))) attachedDevices)
          (knownSigners s)"

text \<open>The function given to \<open>setTimeout\<close> (lines 150-157), closed over \<open>ledger\<close>.\<close>

definition timeout_callback :: "ref \<Rightarrow> adapter \<Rightarrow> adapter \<times> effect list" where
  "timeout_callback ledger s =
     (let index = findIndex (\<lambda>d. pd_devicePath d = devicePath (heap s ! ledger)) (disconnections s);
          s1 = s\<lparr>disconnections := splice index 1 (disconnections s)\<rparr>;
          s2 = s1\<lparr>knownSigners := splice (indexOf ledger (knownSigners s1)) 1 (knownSigners s1)\<rparr>
      in (s2, Ledger_close (heap s2) ledger))"

text \<open>\<open>IS_WINDOWS\<close> (line 13) is a constant of the process; it is an argument here.\<close>

definition handleDetachedDevice :: "bool \<Rightarrow> HidDevice list \<Rightarrow> DeviceModel \<Rightarrow> adapter \<Rightarrow> adapter \<times> effect list" where
  "handleDetachedDevice IS_WINDOWS attachedDevices usbDevice s =
     (case getDetachedSigner attachedDevices usbDevice s of
        None \<Rightarrow> (s, [])
      | Some ledger \<Rightarrow>
          (if \<not> IS_WINDOWS then
             (s\<lparr>disconnections := disconnections s @
                   [\<lparr>pd_devicePath = devicePath (heap s ! ledger), timeout = next_timer s\<rparr>],
                timers := timers s @ [(next_timer s, ledger)],
                next_timer := Suc (next_timer s)\<rparr>,
              [Call_disconnect ledger])
           else (s, [Call_disconnect ledger])))"

subsection \<open>The event loop\<close>

text \<open>
  Everything runs on one thread, one event at a time. \<open>Timeout\<close> is the oldest armed
  timer firing; since all timers have the same delay, no other timer can fire first.
  \<open>Notify\<close> is the store running the observer's callback; the store is outside the
  adapter, and the event is allowed at any time, also when no subscription is live,
  which only adds runs. A \<open>close()\<close> that throws leaves the adapter as it was.
\<close>

datatype event =
    Attached store "HidDevice list" bool DeviceModel
  | Detached "HidDevice list" DeviceModel
  | Timeout
  | Notify store
  | Open nat
  | Close

fun step :: "bool \<Rightarrow> event \<Rightarrow> adapter \<Rightarrow> adapter \<times> effect list" where
  "step w (Attached st devices open_ok usbDevice) s = handleAttachedDevice st devices open_ok usbDevice s"
| "step w (Detached devices usbDevice) s = handleDetachedDevice w devices usbDevice s"
| "step w Timeout s =
     (case timers s of
        [] \<Rightarrow> (s, [])
      | (t, ledger) # rest \<Rightarrow> timeout_callback ledger (s\<lparr>timers := rest\<rparr>))"
| "step w (Notify st) s = observer_callback st s"
| "step w (Open ob) s = open_adapter ob s"
| "step w Close s =
     (case close_adapter s of Inl e \<Rightarrow> (s, [Thrown_TypeError]) | Inr r \<Rightarrow> r)"

fun run :: "bool \<Rightarrow> event list \<Rightarrow> adapter \<Rightarrow> adapter \<times> effect list" where
  "run w [] s = (s, [])"
| "run w (e # es) s =
     (let (s1, out1) = step w e s;
          (s2, out2) = run w es s1
      in (s2, out1 @ out2))"

subsection \<open>Invariants and the vocabulary of the specification\<close>

text \<open>The device paths owned by the registry (line 72).\<close>

definition known_paths :: "adapter \<Rightarrow> string list" where
  "known_paths s = map (\<lambda>d. devicePath (heap s ! d)) (knownSigners s)"


text \<open>The ids of all handles constructed so far, in the order of construction.\<close>

definition ids_ever :: "adapter \<Rightarrow> nat list" where
  "ids_ever s = map ledger_id (heap s)"

text \<open>
  What holds of every state the adapter can be in: the references it keeps (in the
  registry and in the closures of armed timers) point to allocated objects, timer
  handles are fresh, no two registry entries have the same path, and no two handles
  ever constructed have the same id.
\<close>

definition wf :: "adapter \<Rightarrow> bool" where
  "wf s \<longleftrightarrow>
     (\<forall>r\<in>set (knownSigners s). r < length (heap s)) \<and>
     (\<forall>p\<in>set (timers s). snd p < length (heap s) \<and> fst p < next_timer s) \<and>
     distinct (map fst (timers s)) \<and>
     distinct (known_paths s) \<and>
     distinct (ids_ever s) \<and>
     (\<forall>l\<in>set (heap s). ledger_id l < ids_issued s)"

text \<open>
  What the constructor fixed for each handle constructed so far: id, path and model.
\<close>

definition created :: "adapter \<Rightarrow> (nat \<times> string \<times> string) list" where
  "created s = map (\<lambda>l. (ledger_id l, devicePath l, model l)) (heap s)"

text \<open>
  The effective configuration in the words of the specification: the account limit is
  only non-zero under the live scheme and is otherwise forced to 0.
\<close>

definition spec_effective_config :: "store \<Rightarrow> string \<times> int" where
  "spec_effective_config st =
     (main_ledger_derivation st,
      if main_ledger_derivation st = Derivation_live then main_ledger_liveAccountLimit st else 0)"

text \<open>The call of \<open>updateDerivation\<close> at line 44, as the observer makes it.\<close>

definition update_by_observer :: "store \<Rightarrow> Ledger \<Rightarrow> Ledger" where
  "update_by_observer st l =
     updateDerivation st l (Some (main_ledger_derivation st)) (Some (main_ledger_liveAccountLimit st))"

text \<open>The subscription that the last call of \<open>open()\<close> in a sequence of events stored.\<close>

definition last_Open :: "event list \<Rightarrow> nat option" where
  "last_Open evs = foldl (\<lambda>ob e. case e of Open x \<Rightarrow> Some x | _ \<Rightarrow> ob) None evs"



text \<open>
  In the words of claim C10: a device that reports a path which no registry entry
  owns, and the paths of these devices in the order of the enumeration.
\<close>

definition has_unowned_path :: "string list \<Rightarrow> HidDevice \<Rightarrow> bool" where
  "has_unowned_path known d =
     (case path d of None \<Rightarrow> False | Some p \<Rightarrow> p \<noteq> [] \<and> p \<notin> set known)"

definition unowned_paths :: "HidDevice list \<Rightarrow> string list \<Rightarrow> string list" where
  "unowned_paths devices known = List.map_filter path (filter (has_unowned_path known) devices)"

subsection \<open>Sample values\<close>

text \<open>
  Two devices of one model, two settings of the store, and the states and event
  sequences at which the theorems below are evaluated.
\<close>

definition store_live :: store where
  "store_live = \<lparr>main_ledger_derivation = ''live'', main_ledger_liveAccountLimit = 5\<rparr>"

definition store_legacy :: store where
  "store_legacy = \<lparr>main_ledger_derivation = ''legacy'', main_ledger_liveAccountLimit = 5\<rparr>"

definition store_legacy_7 :: store where
  "store_legacy_7 = \<lparr>main_ledger_derivation = ''legacy'', main_ledger_liveAccountLimit = 7\<rparr>"

definition nanoS :: DeviceModel where
  "nanoS = \<lparr>usb_id = ''nanoS''\<rparr>"

definition nanoX :: DeviceModel where
  "nanoX = \<lparr>usb_id = ''nanoX''\<rparr>"

definition dev_A :: HidDevice where
  "dev_A = \<lparr>path = Some ''/dev/A''\<rparr>"

definition dev_B :: HidDevice where
  "dev_B = \<lparr>path = Some ''/dev/B''\<rparr>"

definition dev_nopath :: HidDevice where
  "dev_nopath = \<lparr>path = None\<rparr>"

definition ledger_A :: Ledger where
  "ledger_A = \<lparr>ledger_id = 0, devicePath = ''/dev/A'', model = ''nanoS'',
               derivation = ''live'', accountLimit = 5\<rparr>"

definition ledger_B :: Ledger where
  "ledger_B = \<lparr>ledger_id = 1, devicePath = ''/dev/B'', model = ''nanoS'',
               derivation = ''live'', accountLimit = 5\<rparr>"

text \<open>The adapter after \<open>/dev/A\<close> was attached, and after \<open>/dev/B\<close> was attached as well.\<close>

definition state_A :: adapter where
  "state_A = \<lparr>knownSigners = [0], disconnections = [], observer = None,
              heap = [ledger_A], timers = [], next_timer = 0, ids_issued = 1\<rparr>"

definition state_AB :: adapter where
  "state_AB = \<lparr>knownSigners = [0, 1], disconnections = [], observer = None,
               heap = [ledger_A, ledger_B], timers = [], next_timer = 0, ids_issued = 2\<rparr>"

text \<open>Two devices attach, the first one is unplugged and its deadline passes.\<close>

definition two_devices_one_left :: "event list" where
  "two_devices_one_left =
     [Attached store_live [dev_A] True nanoS,
      Attached store_live [dev_A, dev_B] True nanoS,
      Detached [dev_B] nanoS,
      Timeout]"

text \<open>Scenario A of the specification: \<open>/dev/A\<close> detaches and comes back as \<open>/dev/B\<close>.\<close>

definition reattach_other_path :: "event list" where
  "reattach_other_path =
     [Attached store_live [dev_A] True nanoS,
      Detached [] nanoS,
      Attached store_live [dev_B] True nanoS]"


text \<open>The adapter after \<open>/dev/A\<close> was attached and detached (not on Windows).\<close>

definition state_A_detached :: adapter where
  "state_A_detached =
     \<lparr>knownSigners = [0], disconnections = [\<lparr>pd_devicePath = ''/dev/A'', timeout = 0\<rparr>],
      observer = None, heap = [ledger_A], timers = [(0, 0)], next_timer = 1, ids_issued = 1\<rparr>"

text \<open>The same, after \<open>/dev/B\<close> was attached while \<open>/dev/A\<close> is pending.\<close>

definition state_AB_detached :: adapter where
  "state_AB_detached =
     \<lparr>knownSigners = [0, 1], disconnections = [\<lparr>pd_devicePath = ''/dev/A'', timeout = 0\<rparr>],
      observer = None, heap = [ledger_A, ledger_B], timers = [(0, 0)], next_timer = 1,
      ids_issued = 2\<rparr>"

text \<open>On Windows: a device attaches and is unplugged; then it is plugged in again.\<close>

definition windows_detach :: "event list" where
  "windows_detach = [Attached store_live [dev_A] True nanoS, Detached [] nanoS]"

definition windows_replug :: "event list" where
  "windows_replug =
     [Attached store_live [dev_A] True nanoS,
      Detached [] nanoS,
      Attached store_live [dev_A] True nanoS]"


definition state_two_models_unplugged :: adapter where
  "state_two_models_unplugged =
     \<lparr>knownSigners = [0, 1],
      disconnections = [\<lparr>pd_devicePath = ''/dev/A'', timeout = 0\<rparr>,
                        \<lparr>pd_devicePath = ''/dev/B'', timeout = 1\<rparr>],
      observer = None, heap = [ledger_A, ledger_B\<lparr>model := ''nanoX''\<rparr>],
      timers = [(0, 0), (1, 1)], next_timer = 2, ids_issued = 2\<rparr>"

text \<open>
  Two devices of one model on a hub, and the hub is unplugged: two detach events, at
  both of which the enumeration is empty. Then the states after the two detach events
  and after the first of the two deadlines.
\<close>

definition hub_unplugged :: "event list" where
  "hub_unplugged =
     [Attached store_live [dev_A] True nanoS,
      Attached store_live [dev_A, dev_B] True nanoS,
      Detached [] nanoS,
      Detached [] nanoS]"

definition state_hub_unplugged :: adapter where
  "state_hub_unplugged =
     \<lparr>knownSigners = [0, 1],
      disconnections = [\<lparr>pd_devicePath = ''/dev/A'', timeout = 0\<rparr>,
                        \<lparr>pd_devicePath = ''/dev/A'', timeout = 1\<rparr>],
      observer = None, heap = [ledger_A, ledger_B],
      timers = [(0, 0), (1, 0)], next_timer = 2, ids_issued = 2\<rparr>"

definition state_first_expired :: adapter where
  "state_first_expired =
     \<lparr>knownSigners = [1],
      disconnections = [\<lparr>pd_devicePath = ''/dev/A'', timeout = 1\<rparr>],
      observer = None, heap = [ledger_A, ledger_B],
      timers = [(1, 0)], next_timer = 2, ids_issued = 2\<rparr>"

text \<open>
  A device attaches under the live scheme; then the store changes to legacy. The state
  after these events.
\<close>

definition legacy_after_live :: "event list" where
  "legacy_after_live =
     [Open 0, Attached store_live [dev_A] True nanoS, Notify store_legacy]"

definition state_legacy_5 :: adapter where
  "state_legacy_5 =
     \<lparr>knownSigners = [0], disconnections = [], observer = Some 0,
      heap = [\<lparr>ledger_id = 0, devicePath = ''/dev/A'', model = ''nanoS'',
               derivation = ''legacy'', accountLimit = 5\<rparr>],
      timers = [], next_timer = 0, ids_issued = 1\<rparr>"

section \<open>Lemmas\<close>

subsection \<open>Array operations\<close>

lemma findIndex_ge: "- 1 \<le> findIndex P xs"
  by (induction xs) (auto simp: Let_def)

lemma findIndex_neg_iff: "findIndex P xs < 0 \<longleftrightarrow> (\<forall>x\<in>set xs. \<not> P x)"
proof (induction xs)
  case Nil
  show ?case by simp
next
  case (Cons x xs)
  have "- 1 \<le> findIndex P xs" by (rule findIndex_ge)
  with Cons show ?case by (auto simp: Let_def)
qed

lemma findIndex_nth:
  "0 \<le> findIndex P xs \<Longrightarrow> nat (findIndex P xs) < length xs \<and> P (xs ! nat (findIndex P xs))"
proof (induction xs)
  case Nil
  then show ?case by simp
next
  case (Cons x xs)
  show ?case
  proof (cases "P x")
    case True
    then show ?thesis by simp
  next
    case False
    with Cons.prems have nn: "0 \<le> findIndex P xs"
      by (simp add: Let_def split: if_splits)
    then have eq: "findIndex P (x # xs) = findIndex P xs + 1"
      using False by (simp add: Let_def)
    have "nat (findIndex P xs + 1) = Suc (nat (findIndex P xs))"
      using nn by simp
    with Cons.IH [OF nn] eq show ?thesis by simp
  qed
qed

lemma findIndex_find:
  "find P xs = (if findIndex P xs < 0 then None else Some (xs ! nat (findIndex P xs)))"
proof (induction xs)
  case Nil
  show ?case by simp
next
  case (Cons x xs)
  show ?case
  proof (cases "P x")
    case True
    then show ?thesis by simp
  next
    case False
    show ?thesis
    proof (cases "findIndex P xs < 0")
      case True
      with False Cons show ?thesis by (simp add: Let_def)
    next
      case nn: False
      then have "nat (findIndex P xs + 1) = Suc (nat (findIndex P xs))" by simp
      with False nn Cons show ?thesis by (simp add: Let_def)
    qed
  qed
qed

lemma find_in_set: "find P xs = Some x \<Longrightarrow> x \<in> set xs \<and> P x"
  by (induction xs) (auto split: if_splits)

lemma find_inj_on_key:
  "distinct (map f xs) \<Longrightarrow> r \<in> set xs \<Longrightarrow> find (\<lambda>y. f y = f r) xs = Some r"
  by (induction xs) auto

lemma splice_eq: "\<exists>k. splice i n xs = take k xs @ drop (k + n) xs"
  unfolding splice_def Let_def by blast

lemma set_take_drop: "set (take k xs @ drop (k + n) xs) \<subseteq> set xs"
  using set_take_subset [of k xs] set_drop_subset [of "k + n" xs] by auto

lemma set_splice: "set (splice i n xs) \<subseteq> set xs"
  using splice_eq [of i n xs] set_take_drop [of _ xs n] by metis

lemma distinct_take_drop: "distinct xs \<Longrightarrow> distinct (take k xs @ drop (k + n) xs)"
proof -
  assume d: "distinct xs"
  have "xs = take k xs @ take n (drop k xs) @ drop (k + n) xs"
    by (metis append_take_drop_id drop_drop add.commute)
  with d have "distinct (take k xs @ take n (drop k xs) @ drop (k + n) xs)" by simp
  then show ?thesis by auto
qed

lemma map_splice: "map f (splice i n xs) = splice i n (map f xs)"
  by (simp add: splice_def Let_def take_map drop_map)

lemma distinct_splice: "distinct xs \<Longrightarrow> distinct (splice i n xs)"
  using splice_eq [of i n xs] distinct_take_drop [of xs _ n] by metis

lemma distinct_map_splice: "distinct (map f xs) \<Longrightarrow> distinct (map f (splice i n xs))"
  by (simp add: map_splice distinct_splice)

lemma splice_indexOf_removes:
  assumes "distinct xs"
  shows "x \<notin> set (splice (indexOf x xs) 1 xs)"
proof (cases "x \<in> set xs")
  case False
  then show ?thesis using set_splice [of "indexOf x xs" 1 xs] by auto
next
  case True
  then have nn: "0 \<le> indexOf x xs"
    using findIndex_neg_iff [of "\<lambda>y. y = x" xs] by (auto simp: indexOf_def)
  define k where "k = nat (indexOf x xs)"
  from findIndex_nth [of "\<lambda>y. y = x" xs] nn have k: "k < length xs" "xs ! k = x"
    by (simp_all add: indexOf_def k_def)
  have sp: "splice (indexOf x xs) 1 xs = take k xs @ drop (Suc k) xs"
  proof -
    have "indexOf x xs \<le> int (length xs)" using k(1) nn by (simp add: k_def)
    then show ?thesis using nn by (simp add: splice_def Let_def k_def min_def)
  qed
  have "xs = take k xs @ x # drop (Suc k) xs"
    using k by (metis id_take_nth_drop)
  with assms have "distinct (take k xs @ x # drop (Suc k) xs)" by simp
  then have "x \<notin> set (take k xs) \<and> x \<notin> set (drop (Suc k) xs)" by auto
  with sp show ?thesis by simp
qed

subsection \<open>The invariant is kept by every handler\<close>

lemma updateDerivation_fields [simp]:
  "ledger_id (updateDerivation st l a b) = ledger_id l"
  "devicePath (updateDerivation st l a b) = devicePath l"
  "model (updateDerivation st l a b) = model l"
  by (simp_all add: updateDerivation_def Let_def)

lemma nth_update_same_field:
  assumes "f x = f (h ! i)"
  shows "f (h[i := x] ! j) = f (h ! j)"
proof (cases "i < length h \<and> i = j")
  case True
  then show ?thesis using assms by simp
next
  case False
  then show ?thesis by (cases "i = j") (simp_all add: list_update_beyond not_less)
qed

lemma map_update_same_field:
  assumes "f x = f (h ! i)"
  shows "map f (h[i := x]) = map f h"
proof (cases "i < length h")
  case True
  then show ?thesis using assms by (simp add: map_update list_update_same_conv)
next
  case False
  then show ?thesis by (simp add: list_update_beyond not_less)
qed

lemma set_update_field_bound:
  assumes "\<forall>l\<in>set h. f l < (n::nat)" and "f x = f (h ! i)"
  shows "\<forall>l\<in>set (h[i := x]). f l < n"
proof (cases "i < length h")
  case True
  then have "f x < n" using assms by simp
  then show ?thesis
    using assms(1) set_update_subset_insert [of h i x] by auto
next
  case False
  then show ?thesis using assms(1) by (simp add: list_update_beyond not_less)
qed

lemma wf_heap_update:
  assumes "wf s" and "ledger_id x = ledger_id (heap s ! i)" and "devicePath x = devicePath (heap s ! i)"
  shows "wf (s\<lparr>heap := (heap s)[i := x]\<rparr>)"
proof -
  have "known_paths (s\<lparr>heap := (heap s)[i := x]\<rparr>) = known_paths s"
    using nth_update_same_field [of devicePath x "heap s" i] assms(3)
    by (simp add: known_paths_def)
  moreover have "map ledger_id ((heap s)[i := x]) = map ledger_id (heap s)"
    using assms(2) by (rule map_update_same_field)
  moreover have "\<forall>l\<in>set ((heap s)[i := x]). ledger_id l < ids_issued s"
    using assms(1,2) set_update_field_bound [of "heap s" ledger_id "ids_issued s" x i]
    by (simp add: wf_def ids_ever_def)
  ultimately show ?thesis using assms(1) by (simp add: wf_def ids_ever_def)
qed

lemma wf_attach_resolved:
  assumes "wf s"
  shows "wf (fst (attach_resolved st open_ok usbDevice p s))"
proof (cases "0 \<le> findIndex (\<lambda>r. devicePath (heap s ! r) = p) (knownSigners s)")
  case True
  then show ?thesis
    using wf_heap_update [OF assms] by (simp add: attach_resolved_def Let_def)
next
  case False
  then have fresh: "p \<notin> set (known_paths s)"
    using findIndex_neg_iff [of "\<lambda>r. devicePath (heap s ! r) = p" "knownSigners s"]
    by (auto simp: known_paths_def)
  let ?obj = "updateDerivation st (Ledger_new (ids_issued s) p (usb_id usbDevice)) None None"
  let ?s' = "s\<lparr>heap := heap s @ [?obj], ids_issued := Suc (ids_issued s),
               knownSigners := knownSigners s @ [length (heap s)]\<rparr>"
  have eq: "fst (attach_resolved st open_ok usbDevice p s) = ?s'"
    using False by (simp add: attach_resolved_def Let_def)
  have valid: "\<forall>r\<in>set (knownSigners s). r < length (heap s)"
    using assms by (simp add: wf_def ids_ever_def)
  have kp: "known_paths ?s' = known_paths s @ [p]"
    using valid by (simp add: known_paths_def nth_append Ledger_new_def)
  have ids: "ledger_id ?obj = ids_issued s" by (simp add: Ledger_new_def)
  have "ids_issued s \<notin> ledger_id ` set (heap s)"
    using assms by (auto simp: wf_def ids_ever_def)
  then have d: "distinct (map ledger_id (heap s @ [?obj]))"
    using assms ids by (simp add: wf_def ids_ever_def)
  have b: "\<forall>l\<in>set (heap s @ [?obj]). ledger_id l < Suc (ids_issued s)"
    using assms ids by (auto simp: wf_def less_Suc_eq)
  have t: "\<forall>p\<in>set (timers s). snd p < Suc (length (heap s)) \<and> fst p < next_timer s"
    using assms by (auto simp: wf_def less_Suc_eq)
  have v: "\<forall>r\<in>set (knownSigners s). r < Suc (length (heap s))"
    using valid by (auto simp: less_Suc_eq)
  have "wf ?s'"
    unfolding wf_def using assms kp fresh d b t v by (simp add: wf_def ids_ever_def)
  with eq show ?thesis by simp
qed

lemma wf_clear:
  assumes "wf s"
  shows "wf (s\<lparr>disconnections := ds, timers := clearTimeout t (timers s)\<rparr>)"
  using assms by (auto simp: wf_def ids_ever_def known_paths_def clearTimeout_def distinct_map_filter)

lemma wf_handleAttachedDevice:
  assumes "wf s"
  shows "wf (fst (handleAttachedDevice st devices open_ok usbDevice s))"
  using wf_attach_resolved [OF assms] wf_attach_resolved [OF wf_clear [OF assms]]
  by (simp add: handleAttachedDevice_def Let_def split: option.splits prod.splits add: assms)

lemma getDetachedSigner_Some:
  assumes "getDetachedSigner devices usbDevice s = Some r"
  shows "r \<in> set (knownSigners s)" and "model (heap s ! r) = usb_id usbDevice"
    and "\<forall>device\<in>set devices. path device \<noteq> Some (devicePath (heap s ! r))"
  using find_in_set [OF assms [unfolded getDetachedSigner_def]]
  by (auto simp: list_ex_iff)

lemma wf_handleDetachedDevice:
  assumes "wf s"
  shows "wf (fst (handleDetachedDevice w devices usbDevice s))"
proof (cases "getDetachedSigner devices usbDevice s")
  case None
  then show ?thesis using assms by (simp add: handleDetachedDevice_def)
next
  case (Some r)
  from getDetachedSigner_Some(1) [OF Some] assms have r: "r < length (heap s)"
    by (simp add: wf_def ids_ever_def)
  have "next_timer s \<notin> fst ` set (timers s)"
    using assms by (auto simp: wf_def ids_ever_def)
  then show ?thesis
    using assms Some r
    by (auto simp: handleDetachedDevice_def wf_def ids_ever_def known_paths_def less_Suc_eq)
qed

lemma wf_timeout_callback:
  assumes "wf s"
  shows "wf (fst (timeout_callback ledger s))"
proof -
  let ?ks = "splice (indexOf ledger (knownSigners s)) 1 (knownSigners s)"
  have sub: "set ?ks \<subseteq> set (knownSigners s)" by (rule set_splice)
  have "distinct (map (\<lambda>d. devicePath (heap s ! d)) ?ks)"
    using assms distinct_map_splice [of "\<lambda>d. devicePath (heap s ! d)" "knownSigners s"]
    by (simp add: wf_def ids_ever_def known_paths_def)
  then show ?thesis
    using assms sub by (auto simp: timeout_callback_def Let_def wf_def ids_ever_def known_paths_def)
qed

lemma forEach_ledger_fields:
  "map ledger_id (fst (forEach_ledger st rs h)) = map ledger_id h \<and>
   map devicePath (fst (forEach_ledger st rs h)) = map devicePath h \<and>
   map model (fst (forEach_ledger st rs h)) = map model h"
proof (induction rs arbitrary: h)
  case Nil
  show ?case by simp
next
  case (Cons r rs)
  let ?h1 = "h[r := updateDerivation st (h ! r)
               (Some (main_ledger_derivation st)) (Some (main_ledger_liveAccountLimit st))]"
  have "map ledger_id ?h1 = map ledger_id h" "map devicePath ?h1 = map devicePath h"
    "map model ?h1 = map model h"
    by (simp_all add: map_update_same_field)
  with Cons [of ?h1] Cons [of h] show ?case
    by (simp add: Let_def split_beta)
qed

lemma map_eq_nth_field:
  assumes "map f h' = map f h" and "i < length h"
  shows "f (h' ! i) = f (h ! i)"
proof -
  have "length h' = length h" using assms(1) by (metis length_map)
  then show ?thesis using assms by (metis nth_map)
qed

lemma wf_observer_callback:
  assumes "wf s"
  shows "wf (fst (observer_callback st s))"
proof -
  let ?h = "fst (forEach_ledger st (knownSigners s) (heap s))"
  have f: "map ledger_id ?h = map ledger_id (heap s)" "map devicePath ?h = map devicePath (heap s)"
    using forEach_ledger_fields [of st "knownSigners s" "heap s"] by simp_all
  have len: "length ?h = length (heap s)" using f(1) by (metis length_map)
  have "\<forall>r\<in>set (knownSigners s). devicePath (?h ! r) = devicePath (heap s ! r)"
    using map_eq_nth_field [OF f(2)] assms by (simp add: wf_def ids_ever_def)
  then have "map (\<lambda>d. devicePath (?h ! d)) (knownSigners s) = known_paths s"
    by (simp add: known_paths_def)
  then have kp: "distinct (map (\<lambda>d. devicePath (?h ! d)) (knownSigners s))"
    using assms by (simp add: wf_def ids_ever_def)
  have "ledger_id ` set ?h = ledger_id ` set (heap s)"
    using f(1) by (metis set_map)
  moreover have "\<forall>i\<in>ledger_id ` set (heap s). i < ids_issued s"
    using assms by (simp add: wf_def ids_ever_def)
  ultimately have b: "\<forall>l\<in>set ?h. ledger_id l < ids_issued s"
    by (metis imageI)
  show ?thesis
    using assms f(1) len kp b
    by (simp add: observer_callback_def wf_def ids_ever_def known_paths_def split_beta)
qed

lemma wf_step:
  assumes "wf s"
  shows "wf (fst (step w e s))"
proof (cases e)
  case (Attached st devices open_ok usbDevice)
  then show ?thesis using wf_handleAttachedDevice [OF assms] by simp
next
  case (Detached devices usbDevice)
  then show ?thesis using wf_handleDetachedDevice [OF assms] by simp
next
  case Timeout
  show ?thesis
  proof (cases "timers s")
    case Nil
    then show ?thesis using Timeout assms by simp
  next
    case (Cons a rest)
    have "wf (s\<lparr>timers := rest\<rparr>)"
      using assms Cons by (auto simp: wf_def ids_ever_def known_paths_def)
    from wf_timeout_callback [OF this] Cons Timeout show ?thesis
      by (simp split: prod.splits)
  qed
next
  case (Notify st)
  then show ?thesis using wf_observer_callback [OF assms] by simp
next
  case (Open ob)
  then show ?thesis using assms by (simp add: open_adapter_def wf_def ids_ever_def known_paths_def)
next
  case Close
  then show ?thesis using assms by (simp add: close_adapter_def split: option.splits)
qed

lemma wf_init: "wf adapter_init"
  by (simp add: wf_def adapter_init_def known_paths_def ids_ever_def)

lemma wf_run: "wf s \<Longrightarrow> wf (fst (run w evs s))"
proof (induction evs arbitrary: s)
  case Nil
  then show ?case by simp
next
  case (Cons e evs)
  from Cons.IH [OF wf_step [OF Cons.prems, of w e]] show ?case
    by (simp add: Let_def split_beta)
qed

subsection \<open>Evaluation and the sample states\<close>

lemmas sample_defs = store_live_def store_legacy_def store_legacy_7_def nanoS_def nanoX_def dev_A_def dev_B_def dev_nopath_def
lemmas handler_defs = adapter_init_def handleAttachedDevice_def handleDetachedDevice_def
  getAttachedDevicePath_def getDetachedSigner_def attach_resolved_def pop_def clearTimeout_def
  timeout_callback_def splice_def indexOf_def Ledger_new_def updateDerivation_def
  Derivation_live_def Ledger_close_def observer_callback_def observer_guard_def
  open_adapter_def close_adapter_def Let_def

lemmas state_defs = ledger_A_def ledger_B_def state_A_def state_AB_def

lemma wf_state_A: "wf state_A"
  by (simp add: wf_def state_defs known_paths_def ids_ever_def)

lemma wf_state_AB: "wf state_AB"
  by (simp add: wf_def state_defs known_paths_def ids_ever_def)

subsection \<open>Id, path and model of a handle never change\<close>

lemma forEach_ledger_map:
  assumes "\<And>l a b. f (updateDerivation st l a b) = f l"
  shows "map f (fst (forEach_ledger st rs h)) = map f h"
proof (induction rs arbitrary: h)
  case Nil
  show ?case by simp
next
  case (Cons r rs)
  let ?h1 = "h[r := updateDerivation st (h ! r)
               (Some (main_ledger_derivation st)) (Some (main_ledger_liveAccountLimit st))]"
  have "map f ?h1 = map f h"
    using assms by (simp add: map_update_same_field)
  with Cons [of ?h1] Cons [of h] show ?case
    by (simp add: Let_def split_beta)
qed

lemma created_attach_resolved:
  "prefix (created s) (created (fst (attach_resolved st open_ok usbDevice p s)))"
  by (simp add: attach_resolved_def Let_def created_def map_update_same_field)

lemma created_step:
  "prefix (created s) (created (fst (step w e s)))"
proof (cases e)
  case (Attached st devices open_ok usbDevice)
  have "created (s\<lparr>disconnections := ds, timers := ts\<rparr>) = created s" for ds ts
    by (simp add: created_def)
  then show ?thesis
    using Attached created_attach_resolved [of s]
      created_attach_resolved [of "s\<lparr>disconnections := ds, timers := ts\<rparr>" for ds ts]
    by (simp add: handleAttachedDevice_def Let_def split: option.splits prod.splits)
next
  case (Detached devices usbDevice)
  then show ?thesis
    by (simp add: handleDetachedDevice_def created_def split: option.splits)
next
  case Timeout
  then show ?thesis
    by (simp add: timeout_callback_def Let_def created_def split: list.splits prod.splits)
next
  case (Notify st)
  then show ?thesis
    using forEach_ledger_map [of "\<lambda>l. (ledger_id l, devicePath l, model l)" st "knownSigners s" "heap s"]
    by (simp add: observer_callback_def created_def split_beta)
next
  case (Open ob)
  then show ?thesis by (simp add: open_adapter_def created_def)
next
  case Close
  then show ?thesis by (simp add: close_adapter_def split: option.splits)
qed

lemma created_run:
  "prefix (created s) (created (fst (run w evs s)))"
proof (induction evs arbitrary: s)
  case Nil
  show ?case by simp
next
  case (Cons e evs)
  have "prefix (created s) (created (fst (step w e s)))" by (rule created_step)
  also have "prefix \<dots> (created (fst (run w evs (fst (step w e s)))))" by (rule Cons.IH)
  finally show ?case by (simp add: Let_def split_beta)
qed

lemma ids_ever_run:
  "prefix (ids_ever s) (ids_ever (fst (run w evs s)))"
proof -
  have "ids_ever t = map fst (created t)" for t
    by (simp add: ids_ever_def created_def)
  then show ?thesis using created_run [of s w evs] by (simp add: map_mono_prefix)
qed

lemma created_nth:
  assumes "prefix (created s) (created s')" and "r < length (heap s)"
  shows "r < length (heap s')" and "ledger_id (heap s' ! r) = ledger_id (heap s ! r)"
    and "devicePath (heap s' ! r) = devicePath (heap s ! r)"
    and "model (heap s' ! r) = model (heap s ! r)"
proof -
  from assms(1) obtain zs where zs: "created s' = created s @ zs"
    by (auto simp: prefix_def)
  have len: "r < length (created s)" using assms(2) by (simp add: created_def)
  then have "r < length (created s')" using zs by simp
  then show r': "r < length (heap s')" by (simp add: created_def)
  have "created s' ! r = created s ! r"
    using zs len by (simp add: nth_append)
  then have "(ledger_id (heap s' ! r), devicePath (heap s' ! r), model (heap s' ! r)) =
             (ledger_id (heap s ! r), devicePath (heap s ! r), model (heap s ! r))"
    using r' assms(2) by (simp add: created_def)
  then show "ledger_id (heap s' ! r) = ledger_id (heap s ! r)"
    and "devicePath (heap s' ! r) = devicePath (heap s ! r)"
    and "model (heap s' ! r) = model (heap s ! r)"
    by simp_all
qed

lemma created_detach:
  "created (fst (handleDetachedDevice w devices usbDevice s)) = created s"
  by (simp add: handleDetachedDevice_def created_def split: option.splits)

subsection \<open>A detach followed by an attach\<close>

lemma findIndex_key_unique:
  assumes "distinct (map f xs)" and "r \<in> set xs"
  shows "0 \<le> findIndex (\<lambda>y. f y = f r) xs \<and> xs ! nat (findIndex (\<lambda>y. f y = f r) xs) = r"
  using find_inj_on_key [OF assms] findIndex_find [of "\<lambda>y. f y = f r" xs]
  by (simp split: if_splits)

lemma handleDetachedDevice_tracked:
  assumes "getDetachedSigner devices usbDevice s = Some r"
  shows "handleDetachedDevice False devices usbDevice s =
           (s\<lparr>disconnections := disconnections s @
                 [\<lparr>pd_devicePath = devicePath (heap s ! r), timeout = next_timer s\<rparr>],
              timers := timers s @ [(next_timer s, r)],
              next_timer := Suc (next_timer s)\<rparr>,
            [Call_disconnect r])"
  using assms by (simp add: handleDetachedDevice_def)

lemma attach_resolved_existing:
  assumes "distinct (known_paths s)" and "r \<in> set (knownSigners s)"
  shows "attach_resolved st open_ok usbDevice (devicePath (heap s ! r)) s =
           (s\<lparr>heap := (heap s)[r := updateDerivation st (heap s ! r) None None]\<rparr>,
            Call_open r # (if open_ok then [Call_connect r] else []))"
  using findIndex_key_unique [of "\<lambda>d. devicePath (heap s ! d)" "knownSigners s" r] assms
  by (simp add: attach_resolved_def Let_def known_paths_def)

lemmas more_state_defs = state_A_detached_def state_AB_detached_def state_hub_unplugged_def
  state_first_expired_def state_two_models_unplugged_def state_legacy_5_def

subsection \<open>Runs, event by event\<close>

lemma run_append:
  "run w (xs @ ys) s =
     (fst (run w ys (fst (run w xs s))), snd (run w xs s) @ snd (run w ys (fst (run w xs s))))"
  by (induction xs arbitrary: s) (simp_all add: Let_def split_beta)

lemma run_Cons:
  "run w (e # es) s =
     (fst (run w es (fst (step w e s))), snd (step w e s) @ snd (run w es (fst (step w e s))))"
  by (simp add: Let_def split_beta)

lemma step_attach_A:
  "step w (Attached store_live [dev_A] True nanoS) adapter_init =
     (state_A, [Emit_add 0, Call_open 0, Call_connect 0])"
  by (simp add: sample_defs state_defs handler_defs)

lemma step_attach_B:
  "step w (Attached store_live [dev_A, dev_B] True nanoS) state_A =
     (state_AB, [Emit_add 1, Call_open 1, Call_connect 1])"
  by (simp add: sample_defs state_defs handler_defs)

lemma step_detach_AB:
  "step False (Detached [] nanoS) state_AB =
     (state_AB\<lparr>disconnections := [\<lparr>pd_devicePath = ''/dev/A'', timeout = 0\<rparr>],
               timers := [(0, 0)], next_timer := 1\<rparr>, [Call_disconnect 0])"
  by (simp add: sample_defs state_defs handleDetachedDevice_def getDetachedSigner_def)

lemma step_detach_AB_again:
  "step False (Detached [] nanoS)
     (state_AB\<lparr>disconnections := [\<lparr>pd_devicePath = ''/dev/A'', timeout = 0\<rparr>],
               timers := [(0, 0)], next_timer := 1\<rparr>) =
     (state_hub_unplugged, [Call_disconnect 0])"
  by (simp add: state_hub_unplugged_def sample_defs state_defs handleDetachedDevice_def
      getDetachedSigner_def)

lemmas run_eval = run_Cons run.simps(1) fst_conv snd_conv append.simps

lemma run_hub_unplugged:
  "run False hub_unplugged adapter_init =
     (state_hub_unplugged,
      [Emit_add 0, Call_open 0, Call_connect 0, Emit_add 1, Call_open 1, Call_connect 1,
       Call_disconnect 0, Call_disconnect 0])"
  by (simp only: hub_unplugged_def run_eval step_attach_A step_attach_B step_detach_AB
      step_detach_AB_again)

lemma first_expiry:
  "step False Timeout state_hub_unplugged = (state_first_expired, [Call_close 0, Emit_remove 0])"
  by (simp add: state_hub_unplugged_def state_first_expired_def state_defs
      timeout_callback_def splice_def indexOf_def Ledger_close_def Let_def split del: if_split)

lemma second_expiry:
  "step False Timeout state_first_expired =
     (state_first_expired\<lparr>knownSigners := [], disconnections := [], timers := []\<rparr>,
      [Call_close 0, Emit_remove 0])"
  by (simp add: state_first_expired_def state_defs
      timeout_callback_def splice_def indexOf_def Ledger_close_def Let_def split del: if_split)

lemma run_hub_both_expired:
  "run False (hub_unplugged @ [Timeout, Timeout]) adapter_init =
     (state_first_expired\<lparr>knownSigners := [], disconnections := [], timers := []\<rparr>,
      [Emit_add 0, Call_open 0, Call_connect 0, Emit_add 1, Call_open 1, Call_connect 1,
       Call_disconnect 0, Call_disconnect 0, Call_close 0, Emit_remove 0,
       Call_close 0, Emit_remove 0])"
proof -
  have "run False [Timeout, Timeout] state_hub_unplugged =
     (state_first_expired\<lparr>knownSigners := [], disconnections := [], timers := []\<rparr>,
      [Call_close 0, Emit_remove 0, Call_close 0, Emit_remove 0])"
    by (simp only: run_eval first_expiry second_expiry)
  then show ?thesis
    by (simp only: run_append run_hub_unplugged fst_conv snd_conv append.simps)
qed


subsection \<open>What an attach leaves alone\<close>

lemma attach_resolved_tracking:
  "disconnections (fst (attach_resolved st open_ok usbDevice p s)) = disconnections s \<and>
   timers (fst (attach_resolved st open_ok usbDevice p s)) = timers s"
  by (simp add: attach_resolved_def Let_def)

subsection \<open>The observer\<close>

lemma update_by_observer_fields:
  "derivation (update_by_observer st l) = main_ledger_derivation st"
  "accountLimit (update_by_observer st l) = main_ledger_liveAccountLimit st"
  by (simp_all add: update_by_observer_def updateDerivation_def Let_def)

lemma update_by_observer_settled: "\<not> observer_guard st (update_by_observer st l)"
  by (simp add: observer_guard_def update_by_observer_fields)

lemma forEach_ledger_Cons:
  "forEach_ledger st (r # rs) h =
     (if observer_guard st (h ! r)
      then (fst (forEach_ledger st rs (h[r := update_by_observer st (h ! r)])),
            Call_deriveAddresses r # snd (forEach_ledger st rs (h[r := update_by_observer st (h ! r)])))
      else forEach_ledger st rs h)"
  by (simp add: Let_def split_beta update_by_observer_def)

lemma forEach_ledger_keeps:
  "\<not> observer_guard st (h ! i) \<Longrightarrow> fst (forEach_ledger st rs h) ! i = h ! i"
proof (induction rs arbitrary: h)
  case Nil
  show ?case by simp
next
  case (Cons r rs)
  show ?case
  proof (cases "observer_guard st (h ! r)")
    case True
    with Cons.prems have "r \<noteq> i" by auto
    then have "h[r := update_by_observer st (h ! r)] ! i = h ! i" by simp
    with Cons.IH [of "h[r := update_by_observer st (h ! r)]"] Cons.prems True
    show ?thesis by (simp add: forEach_ledger_Cons del: forEach_ledger.simps)
  next
    case False
    with Cons.IH [of h] Cons.prems show ?thesis
      by (simp add: forEach_ledger_Cons del: forEach_ledger.simps)
  qed
qed

lemma forEach_ledger_settles:
  "\<forall>r\<in>set rs. r < length h \<Longrightarrow> r \<in> set rs \<Longrightarrow>
   \<not> observer_guard st (fst (forEach_ledger st rs h) ! r)"
proof (induction rs arbitrary: h)
  case Nil
  then show ?case by simp
next
  case (Cons a rs)
  let ?h1 = "h[a := update_by_observer st (h ! a)]"
  have valid1: "\<forall>r\<in>set rs. r < length ?h1" using Cons.prems(1) by simp
  show ?case
  proof (cases "observer_guard st (h ! a)")
    case True
    then have eq: "fst (forEach_ledger st (a # rs) h) = fst (forEach_ledger st rs ?h1)"
      by (simp add: forEach_ledger_Cons del: forEach_ledger.simps)
    show ?thesis
    proof (cases "r \<in> set rs")
      case True
      with Cons.IH [OF valid1] eq show ?thesis by simp
    next
      case False
      with Cons.prems(2) have ra: "r = a" by simp
      have "a < length h" using Cons.prems(1) by simp
      then have "\<not> observer_guard st (?h1 ! a)" by (simp add: update_by_observer_settled)
      from forEach_ledger_keeps [OF this, of rs] this eq ra show ?thesis by simp
    qed
  next
    case False
    then have eq: "fst (forEach_ledger st (a # rs) h) = fst (forEach_ledger st rs h)"
      by (simp add: forEach_ledger_Cons del: forEach_ledger.simps)
    show ?thesis
    proof (cases "r \<in> set rs")
      case True
      with Cons.IH [of h] Cons.prems(1) eq show ?thesis by simp
    next
      case nin: False
      with Cons.prems(2) have ra: "r = a" by simp
      from forEach_ledger_keeps [OF False, of rs] False eq ra show ?thesis by simp
    qed
  qed
qed

lemma forEach_ledger_settled:
  "\<forall>r\<in>set rs. \<not> observer_guard st (h ! r) \<Longrightarrow> forEach_ledger st rs h = (h, [])"
  by (induction rs) simp_all

lemma forEach_ledger_calls:
  "distinct rs \<Longrightarrow>
   snd (forEach_ledger st rs h) =
     map Call_deriveAddresses (filter (\<lambda>r. observer_guard st (h ! r)) rs)"
proof (induction rs arbitrary: h)
  case Nil
  show ?case by simp
next
  case (Cons a rs)
  let ?h1 = "h[a := update_by_observer st (h ! a)]"
  have "a \<notin> set rs" "distinct rs" using Cons.prems by simp_all
  then have "\<forall>x\<in>set rs. ?h1 ! x = h ! x"
    by (metis nth_list_update_neq)
  then have "filter (\<lambda>r. observer_guard st (?h1 ! r)) rs = filter (\<lambda>r. observer_guard st (h ! r)) rs"
    by (intro filter_cong) simp_all
  with Cons.IH [OF \<open>distinct rs\<close>, of ?h1] Cons.IH [OF \<open>distinct rs\<close>, of h]
  show ?case by (simp add: forEach_ledger_Cons del: forEach_ledger.simps)
qed

lemma settled_same_effective:
  assumes "spec_effective_config st2 = spec_effective_config st1"
    and "\<not> observer_guard st1 l"
  shows "\<not> observer_guard st2 l"
  using assms
  by (auto simp: spec_effective_config_def observer_guard_def Derivation_live_def split: if_splits)

lemma at_effective_settled:
  assumes "(derivation l, accountLimit l) = spec_effective_config st"
  shows "\<not> observer_guard st l"
  using assms
  by (auto simp: spec_effective_config_def observer_guard_def Derivation_live_def split: if_splits)

lemma observer_twice_same_effective_config:
  assumes "wf s"
    and "spec_effective_config st2 = spec_effective_config st1"
    and "observer_callback st1 s = (s1, out1)"
    and "observer_callback st2 s1 = (s2, out2)"
  shows "out2 = [] \<and> s2 = s1 \<and>
         out1 = map Call_deriveAddresses
                  (filter (\<lambda>r. observer_guard st1 (heap s ! r)) (knownSigners s)) \<and>
         distinct out1 \<and>
         (\<forall>r\<in>set (knownSigners s).
            (derivation (heap s ! r), accountLimit (heap s ! r)) = spec_effective_config st1 \<longrightarrow>
            heap s1 ! r = heap s ! r \<and> Call_deriveAddresses r \<notin> set out1)"
proof -
  let ?rs = "knownSigners s"
  have valid: "\<forall>r\<in>set ?rs. r < length (heap s)" using assms(1) by (simp add: wf_def)
  have d: "distinct ?rs"
    using assms(1) distinct_map [of "\<lambda>d. devicePath (heap s ! d)" ?rs]
    by (simp add: wf_def known_paths_def)
  have s1: "s1 = s\<lparr>heap := fst (forEach_ledger st1 ?rs (heap s))\<rparr>"
    and out1: "out1 = snd (forEach_ledger st1 ?rs (heap s))"
    using assms(3) by (auto simp: observer_callback_def split_beta)
  have calls: "out1 = map Call_deriveAddresses (filter (\<lambda>r. observer_guard st1 (heap s ! r)) ?rs)"
    using forEach_ledger_calls [OF d] out1 by simp
  have dist: "distinct out1"
    using d calls by (simp add: distinct_map inj_on_def)
  have "\<forall>r\<in>set ?rs. \<not> observer_guard st2 (heap s1 ! r)"
    using forEach_ledger_settles [OF valid, of _ st1] settled_same_effective [OF assms(2)]
    by (simp add: s1)
  then have "forEach_ledger st2 (knownSigners s1) (heap s1) = (heap s1, [])"
    using forEach_ledger_settled [of "knownSigners s1" st2 "heap s1"] by (simp add: s1)
  then have second: "out2 = [] \<and> s2 = s1"
    using assms(4) by (auto simp: observer_callback_def)
  have untouched: "heap s1 ! r = heap s ! r \<and> Call_deriveAddresses r \<notin> set out1"
    if "r \<in> set ?rs"
      and "(derivation (heap s ! r), accountLimit (heap s ! r)) = spec_effective_config st1" for r
  proof -
    have g: "\<not> observer_guard st1 (heap s ! r)" using that(2) by (rule at_effective_settled)
    from forEach_ledger_keeps [OF g, of ?rs] have "heap s1 ! r = heap s ! r" by (simp add: s1)
    moreover have "Call_deriveAddresses r \<notin> set out1" using g calls by auto
    ultimately show ?thesis by simp
  qed
  show ?thesis using second calls dist untouched by blast
qed

lemma updateDerivation_at_attach:
  "accountLimit (updateDerivation st l None None) =
     (if main_ledger_derivation st = Derivation_live then main_ledger_liveAccountLimit st else 0)"
  by (simp add: updateDerivation_def Let_def)

subsection \<open>The observer field\<close>

lemma observer_attach_resolved:
  "observer (fst (attach_resolved st open_ok usbDevice p s)) = observer s"
  by (simp add: attach_resolved_def Let_def)

lemma observer_step:
  "observer (fst (step w e s)) = (case e of Open ob \<Rightarrow> Some ob | _ \<Rightarrow> observer s)"
proof (cases e)
  case (Attached st devices open_ok usbDevice)
  then show ?thesis
    by (simp add: handleAttachedDevice_def Let_def observer_attach_resolved
        split: option.splits prod.splits)
next
  case (Detached devices usbDevice)
  then show ?thesis by (simp add: handleDetachedDevice_def split: option.splits)
next
  case Timeout
  then show ?thesis by (simp add: timeout_callback_def Let_def split: list.splits prod.splits)
next
  case (Notify st)
  then show ?thesis by (simp add: observer_callback_def split_beta)
next
  case (Open ob)
  then show ?thesis by (simp add: open_adapter_def)
next
  case Close
  then show ?thesis by (simp add: close_adapter_def split: option.splits)
qed

lemma observer_run:
  "observer (fst (run w evs s)) =
     foldl (\<lambda>ob e. case e of Open x \<Rightarrow> Some x | _ \<Rightarrow> ob) (observer s) evs"
proof (induction evs arbitrary: s)
  case Nil
  show ?case by simp
next
  case (Cons e evs)
  have "observer (fst (run w (e # evs) s)) = observer (fst (run w evs (fst (step w e s))))"
    by (simp add: Let_def split_beta del: step.simps)
  then show ?case
    using Cons [of "fst (step w e s)"] observer_step [of w e s]
    by (cases e) (simp_all del: step.simps run.simps)
qed

subsection \<open>Pending entries and armed timers\<close>















subsection \<open>The path of an attach event\<close>

lemma unowned_paths_Cons:
  "unowned_paths (d # ds) known =
     (if has_unowned_path known d then the (path d) # unowned_paths ds known
      else unowned_paths ds known)"
  by (auto simp: unowned_paths_def has_unowned_path_def map_filter_simps split: option.splits)

lemma getAttachedDevicePath_Cons:
  "getAttachedDevicePath (d # ds) known =
     (if (case path d of None \<Rightarrow> [] | Some p \<Rightarrow> p) \<notin> set known
      then (case path d of None \<Rightarrow> [] | Some p \<Rightarrow> p)
      else getAttachedDevicePath ds known)"
  by (simp add: getAttachedDevicePath_def)

lemma getAttachedDevicePath_first_unowned:
  assumes "\<forall>d\<in>set (takeWhile (\<lambda>d. \<not> has_unowned_path known d) devices).
             path d \<noteq> None \<and> path d \<noteq> Some []"
    and "unowned_paths devices known = p # ps"
  shows "getAttachedDevicePath devices known = p"
  using assms
proof (induction devices)
  case Nil
  then show ?case by (simp add: unowned_paths_def map_filter_simps)
next
  case (Cons d ds)
  show ?case
  proof (cases "has_unowned_path known d")
    case True
    then obtain q where q: "path d = Some q" "q \<noteq> []" "q \<notin> set known"
      by (auto simp: has_unowned_path_def split: option.splits)
    with True Cons.prems(2) have "p = q" by (simp add: unowned_paths_Cons)
    with q show ?thesis by (simp add: getAttachedDevicePath_Cons)
  next
    case False
    with Cons.prems(1) obtain q where q: "path d = Some q" "q \<noteq> []" by auto
    with False have owned: "q \<in> set known" by (simp add: has_unowned_path_def)
    have "getAttachedDevicePath ds known = p"
      using Cons.IH Cons.prems False by (simp add: unowned_paths_Cons)
    with q owned show ?thesis by (simp add: getAttachedDevicePath_Cons)
  qed
qed

lemma getAttachedDevicePath_none_unowned:
  "unowned_paths devices known = [] \<Longrightarrow> getAttachedDevicePath devices known = []"
proof (induction devices)
  case Nil
  show ?case by (simp add: getAttachedDevicePath_def)
next
  case (Cons d ds)
  then have no: "\<not> has_unowned_path known d" and rest: "unowned_paths ds known = []"
    by (simp_all add: unowned_paths_Cons split: if_splits)
  show ?case
  proof (cases "(case path d of None \<Rightarrow> [] | Some p \<Rightarrow> p) \<in> set known")
    case True
    with Cons.IH [OF rest] show ?thesis by (simp add: getAttachedDevicePath_Cons)
  next
    case False
    with no have "(case path d of None \<Rightarrow> [] | Some p \<Rightarrow> p) = []"
      by (auto simp: has_unowned_path_def split: option.splits)
    with False show ?thesis by (simp add: getAttachedDevicePath_Cons)
  qed
qed

lemma unowned_paths_are_unowned:
  "p \<in> set (unowned_paths devices known) \<Longrightarrow> p \<noteq> [] \<and> p \<notin> set known"
  by (induction devices)
     (auto simp: unowned_paths_Cons unowned_paths_def map_filter_simps has_unowned_path_def
        split: if_splits option.splits)

lemma attach_resolved_new:
  assumes "p \<notin> set (known_paths s)"
  shows "knownSigners (fst (attach_resolved st open_ok usbDevice p s)) =
           knownSigners s @ [length (heap s)] \<and>
         devicePath (heap (fst (attach_resolved st open_ok usbDevice p s)) ! length (heap s)) = p \<and>
         snd (attach_resolved st open_ok usbDevice p s) =
           Emit_add (length (heap s)) # Call_open (length (heap s)) #
           (if open_ok then [Call_connect (length (heap s))] else [])"
proof -
  have "findIndex (\<lambda>r. devicePath (heap s ! r) = p) (knownSigners s) < 0"
    using assms findIndex_neg_iff [of "\<lambda>r. devicePath (heap s ! r) = p" "knownSigners s"]
    by (auto simp: known_paths_def)
  then show ?thesis
    by (simp add: attach_resolved_def Let_def Ledger_new_def)
qed


section \<open>The claims\<close>

subsection \<open>C1: a device that comes back within the grace window\<close>

text \<open>
  C1, as stated: a device that detaches and reattaches within the grace window, also
  under a different path, gets its existing handle back, with the same id and with
  the new path as \<open>devicePath\<close>, and no add or remove is emitted.

  The code identifies a returning device by its path. In the scenario of the claim
  (\<open>/dev/A\<close> detaches, \<open>/dev/B\<close> attaches before the deadline) the enumeration shows
  \<open>/dev/B\<close>, which no registry entry owns, so a second handle with a new id is
  constructed and \<open>add\<close> is emitted for it; the first handle keeps \<open>/dev/A\<close> and its
  timer stays armed, and when it fires the first handle is closed and \<open>remove\<close> is
  emitted. No statement of the adapter assigns \<open>devicePath\<close>.
\<close>

theorem C1_counterexample:
  "run False reattach_other_path adapter_init =
     (\<lparr>knownSigners = [0, 1],
       disconnections = [\<lparr>pd_devicePath = ''/dev/A'', timeout = 0\<rparr>],
       observer = None, heap = [ledger_A, ledger_B],
       timers = [(0, 0)], next_timer = 1, ids_issued = 2\<rparr>,
      [Emit_add 0, Call_open 0, Call_connect 0, Call_disconnect 0,
       Emit_add 1, Call_open 1, Call_connect 1]) \<and>
   ledger_id ledger_B \<noteq> ledger_id ledger_A \<and>
   devicePath ledger_A = ''/dev/A'' \<and>
   run False (reattach_other_path @ [Timeout]) adapter_init =
     (\<lparr>knownSigners = [1], disconnections = [],
       observer = None, heap = [ledger_A, ledger_B],
       timers = [], next_timer = 1, ids_issued = 2\<rparr>,
      [Emit_add 0, Call_open 0, Call_connect 0, Call_disconnect 0,
       Emit_add 1, Call_open 1, Call_connect 1, Call_close 0, Emit_remove 0])"
  by (simp add: reattach_other_path_def sample_defs state_defs handler_defs split del: if_split)

text \<open>
  C1, amended: a detach was resolved to a handle (not on Windows); later, whatever
  happened in between, an attach event arrives while the handle is still registered
  and the entry of this detach is the most recent pending entry, and the enumeration
  shows no path outside the registry (the device is back under the path it had). Then
  the handle is reused: the registry is the same, the id and the \<open>devicePath\<close> of the
  handle are what they were, the only effects are \<open>open()\<close> and \<open>connect()\<close> on that
  handle (no add, no remove), the pending entry is consumed and its timer cancelled.
\<close>

theorem C1_reattach_same_path:
  assumes "wf s"
    and "getDetachedSigner devices usbDevice s = Some r"
    and "handleDetachedDevice False devices usbDevice s = (s1, out1)"
    and "run False evs s1 = (s', out')"
    and "r \<in> set (knownSigners s')"
    and "disconnections s' \<noteq> []"
    and "last (disconnections s') =
           \<lparr>pd_devicePath = devicePath (heap s ! r), timeout = next_timer s\<rparr>"
    and "getAttachedDevicePath devices' (known_paths s') = []"
    and "handleAttachedDevice st devices' open_ok usbDevice' s' = (s2, out2)"
  shows "knownSigners s2 = knownSigners s' \<and>
         ledger_id (heap s2 ! r) = ledger_id (heap s ! r) \<and>
         devicePath (heap s2 ! r) = devicePath (heap s ! r) \<and>
         out2 = Call_open r # (if open_ok then [Call_connect r] else []) \<and>
         disconnections s2 = butlast (disconnections s') \<and>
         timers s2 = clearTimeout (next_timer s) (timers s')"
proof -
  have r: "r < length (heap s)"
    using getDetachedSigner_Some(1) [OF assms(2)] assms(1) by (simp add: wf_def)
  have "wf s1"
    using wf_handleDetachedDevice [OF assms(1), of False devices usbDevice] assms(3) by simp
  then have wf': "wf s'"
    using wf_run [of s1 False evs] assms(4) by simp
  have "created s1 = created s"
    using created_detach [of False devices usbDevice s] assms(3) by simp
  then have pre: "prefix (created s) (created s')"
    using created_run [of s1 False evs] assms(4) by simp
  note same = created_nth [OF pre r]
  let ?p = "s'\<lparr>disconnections := butlast (disconnections s'),
                timers := clearTimeout (next_timer s) (timers s')\<rparr>"
  have "handleAttachedDevice st devices' open_ok usbDevice' s' =
          attach_resolved st open_ok usbDevice' (devicePath (heap s ! r)) ?p"
    using assms(6,7,8)
    by (simp add: handleAttachedDevice_def Let_def pop_def known_paths_def)
  moreover have "attach_resolved st open_ok usbDevice' (devicePath (heap ?p ! r)) ?p =
      (?p\<lparr>heap := (heap ?p)[r := updateDerivation st (heap ?p ! r) None None]\<rparr>,
       Call_open r # (if open_ok then [Call_connect r] else []))"
    using wf' assms(5) by (intro attach_resolved_existing) (simp_all add: wf_def known_paths_def)
  ultimately have res: "s2 = ?p\<lparr>heap := (heap s')[r := updateDerivation st (heap s' ! r) None None]\<rparr>"
      "out2 = Call_open r # (if open_ok then [Call_connect r] else [])"
    using assms(9) same(3) by simp_all
  show ?thesis using res same by simp
qed

theorem C1_reattach_same_path_witness:
  "wf state_A \<and> getDetachedSigner [] nanoS state_A = Some 0 \<and>
   handleDetachedDevice False [] nanoS state_A = (state_A_detached, [Call_disconnect 0]) \<and>
   run False [Attached store_live [dev_B] True nanoS] state_A_detached =
     (state_AB_detached, [Emit_add 1, Call_open 1, Call_connect 1]) \<and>
   0 \<in> set (knownSigners state_AB_detached) \<and>
   disconnections state_AB_detached \<noteq> [] \<and>
   last (disconnections state_AB_detached) =
     \<lparr>pd_devicePath = devicePath (heap state_A ! 0), timeout = next_timer state_A\<rparr> \<and>
   getAttachedDevicePath [dev_A, dev_B] (known_paths state_AB_detached) = [] \<and>
   handleAttachedDevice store_live [dev_A, dev_B] True nanoS state_AB_detached =
     (state_AB\<lparr>next_timer := 1\<rparr>, [Call_open 0, Call_connect 0]) \<and>
   ledger_id (heap (state_AB\<lparr>next_timer := 1\<rparr>) ! 0) = ledger_id (heap state_A ! 0)"
proof -
  have d: "getDetachedSigner [] nanoS state_A = Some 0"
    by (simp add: getDetachedSigner_def state_defs sample_defs)
  have h: "handleDetachedDevice False [] nanoS state_A = (state_A_detached, [Call_disconnect 0])"
    by (simp add: handleDetachedDevice_def d) (simp add: state_defs state_A_detached_def)
  have e: "run False [Attached store_live [dev_B] True nanoS] state_A_detached =
     (state_AB_detached, [Emit_add 1, Call_open 1, Call_connect 1])"
    by (simp add: state_defs state_A_detached_def state_AB_detached_def sample_defs handler_defs
        split del: if_split)
  have k: "0 \<in> set (knownSigners state_AB_detached)"
    by (simp add: state_AB_detached_def)
  have n: "disconnections state_AB_detached \<noteq> []"
    by (simp add: state_AB_detached_def)
  have l: "last (disconnections state_AB_detached) =
     \<lparr>pd_devicePath = devicePath (heap state_A ! 0), timeout = next_timer state_A\<rparr>"
    by (simp add: state_AB_detached_def state_defs)
  have g: "getAttachedDevicePath [dev_A, dev_B] (known_paths state_AB_detached) = []"
    by (simp add: getAttachedDevicePath_def known_paths_def state_AB_detached_def state_defs
        sample_defs)
  have a: "handleAttachedDevice store_live [dev_A, dev_B] True nanoS state_AB_detached =
     (state_AB\<lparr>next_timer := 1\<rparr>, [Call_open 0, Call_connect 0])"
    by (simp add: state_defs state_AB_detached_def sample_defs handler_defs split del: if_split)
  have "ledger_id (heap (state_AB\<lparr>next_timer := 1\<rparr>) ! 0) = ledger_id (heap state_A ! 0)"
    using C1_reattach_same_path [OF wf_state_A d h e k n l g a] by blast
  with wf_state_A d h e k n l g a show ?thesis by blast
qed

subsection \<open>C2: unique paths, ids never reused\<close>

text \<open>
  C2: after every sequence of events (attach, detach, expiry of a deadline, and the
  others) no two handles of the registry have the same \<open>devicePath\<close>; no two handles
  ever constructed have the same id, and whatever happens later, the handles
  constructed so far keep their ids. The id of a handle is assigned by the
  constructor of \<open>Ledger\<close>, see \<open>Ledger_new\<close>.
\<close>

theorem C2_unique_paths_and_ids:
  "distinct (known_paths (fst (run w evs adapter_init))) \<and>
   distinct (ids_ever (fst (run w evs adapter_init))) \<and>
   prefix (ids_ever (fst (run w evs adapter_init)))
          (ids_ever (fst (run w later (fst (run w evs adapter_init)))))"
proof -
  have "wf (fst (run w evs adapter_init))"
    using wf_init by (rule wf_run)
  then show ?thesis
    using ids_ever_run [of "fst (run w evs adapter_init)" w later] by (simp add: wf_def)
qed

theorem C2_unique_paths_and_ids_witness:
  "distinct (known_paths (fst (run False two_devices_one_left adapter_init))) \<and>
   distinct (ids_ever (fst (run False two_devices_one_left adapter_init))) \<and>
   prefix (ids_ever (fst (run False two_devices_one_left adapter_init)))
          (ids_ever (fst (run False reattach_other_path
                            (fst (run False two_devices_one_left adapter_init)))))"
  using C2_unique_paths_and_ids [of False two_devices_one_left reattach_other_path] .

subsection \<open>C3: a detach on Windows\<close>

text \<open>
  C3: on Windows a detach event for a resolved signer removes the handle from the
  registry and closes it at once. The comments of \<open>handleDetachedDevice\<close> (lines
  140-146) name the immediate removal as what the waiting stands in for, and the
  timer of the other platforms removes and closes; but the whole treatment stands
  under \<open>if (!IS_WINDOWS)\<close> with no other branch. On Windows the handle is only told
  to disconnect: it stays in the registry and is not closed, and when the device is
  plugged in again under its path, the path is owned, no entry is pending, and the
  attach ends with the logged error.
\<close>

theorem C3_windows_handle_is_never_removed:
  "run True windows_detach adapter_init =
     (state_A, [Emit_add 0, Call_open 0, Call_connect 0, Call_disconnect 0]) \<and>
   knownSigners state_A = [0] \<and>
   run True windows_replug adapter_init =
     (state_A, [Emit_add 0, Call_open 0, Call_connect 0, Call_disconnect 0, Log_error])"
  by (simp add: windows_detach_def windows_replug_def sample_defs state_defs handler_defs
      split del: if_split)

subsection \<open>C4: the account limit outside the live scheme\<close>

text \<open>
  C4: the account limit stored on a signer is 0 whenever its derivation is not the
  live scheme. At attach time this holds (\<open>updateDerivation_at_attach\<close>). The
  observer passes the live account limit of the store as the third argument whatever
  the scheme, and \<open>updateDerivation\<close> takes a non-zero third argument as it is: after
  the store changes from live to legacy the signer has derivation legacy and account
  limit 5, where an attach under the same store gives it 0.
\<close>

theorem C4_observer_sets_limit_without_live:
  "run False legacy_after_live adapter_init =
     (state_A\<lparr>observer := Some 0,
              heap := [ledger_A\<lparr>derivation := ''legacy'', accountLimit := 5\<rparr>]\<rparr>,
      [Super_open, Emit_add 0, Call_open 0, Call_connect 0, Call_deriveAddresses 0]) \<and>
   ''legacy'' \<noteq> Derivation_live \<and>
   fst (step False (Attached store_legacy [dev_A] True nanoS) adapter_init) =
     state_A\<lparr>heap := [ledger_A\<lparr>derivation := ''legacy'', accountLimit := 0\<rparr>]\<rparr>"
  by (simp add: legacy_after_live_def sample_defs state_defs handler_defs split del: if_split)

subsection \<open>C5: the same configuration twice\<close>


subsection \<open>C6: the deadline of a detached device\<close>

text \<open>
  C6: for every device that detaches and does not come back, the firing of its
  deadline removes its handle from the registry and calls \<open>close()\<close> on it exactly
  once. When a hub with two devices of one model is unplugged, both detach events are
  resolved to the first handle (\<open>getDetachedSigner\<close> returns the first signer of the
  model whose path is missing) and both timers close over it. After the two
  deadlines the registry is empty, \<open>close()\<close> was called twice on the first handle
  and never on the second, which \<open>splice(-1, 1)\<close> dropped from the registry.
\<close>

theorem C6_second_device_is_dropped_unclosed:
  "knownSigners (fst (run False hub_unplugged adapter_init)) = [0, 1] \<and>
   knownSigners (fst (run False (hub_unplugged @ [Timeout, Timeout]) adapter_init)) = [] \<and>
   timers (fst (run False (hub_unplugged @ [Timeout, Timeout]) adapter_init)) = [] \<and>
   count_list (snd (run False (hub_unplugged @ [Timeout, Timeout]) adapter_init)) (Call_close 0) = 2 \<and>
   count_list (snd (run False (hub_unplugged @ [Timeout, Timeout]) adapter_init)) (Call_close 1) = 0"
  by (simp only: run_hub_both_expired run_hub_unplugged fst_conv snd_conv)
     (simp add: state_hub_unplugged_def state_first_expired_def)

subsection \<open>C7: removing a handle that is not in the registry\<close>

text \<open>
  C7: removing a handle that the registry does not hold leaves the registry as it
  is. The only removal is \<open>knownSigners.splice(knownSigners.indexOf(ledger), 1)\<close> in the
  timer (line 154), and \<open>indexOf\<close> is -1 for a handle that is not there, which makes
  \<open>splice\<close> delete the last entry. When a hub with two devices of one model is
  unplugged, both detach events are resolved to the first handle and arm a timer for
  it. The first timer removes the first handle; the second timer finds it gone and
  removes the second handle instead, which is never closed.
\<close>

theorem C7_absent_handle_removes_last_entry:
  "fst (run False (hub_unplugged @ [Timeout]) adapter_init) = state_first_expired \<and>
   timers state_first_expired = [(1, 0)] \<and>
   knownSigners state_first_expired = [1] \<and>
   indexOf 0 (knownSigners state_first_expired) = - 1 \<and>
   step False Timeout state_first_expired =
     (state_first_expired\<lparr>knownSigners := [], disconnections := [], timers := []\<rparr>,
      [Call_close 0, Emit_remove 0])"
proof -
  have "run False [Timeout] state_hub_unplugged =
          (state_first_expired, [Call_close 0, Emit_remove 0])"
    using first_expiry by (simp del: step.simps)
  then have "fst (run False (hub_unplugged @ [Timeout]) adapter_init) = state_first_expired"
    by (simp only: run_append run_hub_unplugged fst_conv)
  moreover have "timers state_first_expired = [(1, 0)]"
    and "knownSigners state_first_expired = [1]"
    and "indexOf 0 (knownSigners state_first_expired) = - 1"
    by (simp_all add: state_first_expired_def indexOf_def)
  ultimately show ?thesis using second_expiry by blast
qed

subsection \<open>C8: close() before open()\<close>

text \<open>
  C8, as stated: \<open>close()\<close> does not fail when \<open>open()\<close> was never called. The field
  \<open>observer\<close> is assigned by \<open>open()\<close> only, and \<open>close()\<close> calls \<open>remove()\<close> on it
  without a test: on a new adapter this is a property read on \<open>undefined\<close>.
\<close>

theorem C8_counterexample:
  "close_adapter adapter_init = Inl TypeError \<and>
   step False Close adapter_init = (adapter_init, [Thrown_TypeError])"
  by (simp add: close_adapter_def adapter_init_def)

text \<open>
  C8, amended: after any sequence of events, \<open>close()\<close> throws a TypeError if
  \<open>open()\<close> was never called, and otherwise removes the subscription that the last
  call of \<open>open()\<close> stored and calls \<open>super.close()\<close>, leaving the adapter as it is.
\<close>

theorem C8_close_fails_unless_opened:
  "close_adapter (fst (run w evs adapter_init)) =
     (case last_Open evs of
        None \<Rightarrow> Inl TypeError
      | Some ob \<Rightarrow> Inr (fst (run w evs adapter_init), [Observer_remove ob, Super_close]))"
proof -
  have "observer (fst (run w evs adapter_init)) = last_Open evs"
    using observer_run [of w evs adapter_init] by (simp add: last_Open_def adapter_init_def)
  then show ?thesis by (simp add: close_adapter_def)
qed

theorem C8_close_fails_unless_opened_witness:
  "last_Open [Attached store_live [dev_A] True nanoS, Timeout] = None \<and>
   close_adapter (fst (run False [Attached store_live [dev_A] True nanoS, Timeout] adapter_init)) =
     Inl TypeError \<and>
   last_Open [Open 7, Attached store_live [dev_A] True nanoS, Open 9, Notify store_legacy] = Some 9 \<and>
   close_adapter (fst (run False [Open 7, Attached store_live [dev_A] True nanoS, Open 9,
                                  Notify store_legacy] adapter_init)) =
     Inr (fst (run False [Open 7, Attached store_live [dev_A] True nanoS, Open 9,
                          Notify store_legacy] adapter_init),
          [Observer_remove 9, Super_close])"
proof -
  have n: "last_Open [Attached store_live [dev_A] True nanoS, Timeout] = None"
    by (simp add: last_Open_def)
  have o: "last_Open [Open 7, Attached store_live [dev_A] True nanoS, Open 9, Notify store_legacy] =
             Some 9"
    by (simp add: last_Open_def)
  show ?thesis
    using C8_close_fails_unless_opened [of False "[Attached store_live [dev_A] True nanoS, Timeout]"]
      C8_close_fails_unless_opened [of False "[Open 7, Attached store_live [dev_A] True nanoS,
        Open 9, Notify store_legacy]"]
    by (simp only: n o option.case)
qed

subsection \<open>C9: pending entries per path\<close>




subsection \<open>C10: the path an attach event is resolved to\<close>

text \<open>
  C10, as stated: when the enumeration shows a path that no registry entry owns, the
  event is resolved to the first such path and no pending entry is touched. The
  search of \<open>getAttachedDevicePath\<close> takes a device without a path as a device with
  the path \<open>''\<close>, which nobody owns: when such a device is enumerated first, the
  search stops there, the result is \<open>''\<close>, and the most recent pending entry is
  popped although \<open>/dev/B\<close> is visible and unowned.
\<close>

theorem C10_counterexample:
  "unowned_paths [dev_nopath, dev_B] (known_paths state_A_detached) = [''/dev/B''] \<and>
   disconnections state_A_detached = [\<lparr>pd_devicePath = ''/dev/A'', timeout = 0\<rparr>] \<and>
   handleAttachedDevice store_live [dev_nopath, dev_B] True nanoS state_A_detached =
     (state_A\<lparr>next_timer := 1\<rparr>, [Call_open 0, Call_connect 0])"
  by (simp add: unowned_paths_def has_unowned_path_def map_filter_simps known_paths_def
      sample_defs state_defs more_state_defs handler_defs split del: if_split)

text \<open>
  C10, amended: when the enumeration shows a path that no registry entry owns and
  every device enumerated before the first such path reports a (non-empty) path, the
  event is resolved to this path, for which a new handle is registered, and the
  pending entries and the timers are left as they are. When the enumeration shows
  no unowned path, the most recent pending entry is popped, its timer is cancelled and
  the event is resolved to its path; with no pending entry, the event is logged and
  dropped.
\<close>

theorem C10_first_unowned_path:
  "(unowned_paths devices (known_paths s) = p # ps \<and>
    (\<forall>d\<in>set (takeWhile (\<lambda>d. \<not> has_unowned_path (known_paths s) d) devices).
        path d \<noteq> None \<and> path d \<noteq> Some []) \<longrightarrow>
      handleAttachedDevice st devices open_ok usbDevice s =
        attach_resolved st open_ok usbDevice p s \<and>
      knownSigners (fst (handleAttachedDevice st devices open_ok usbDevice s)) =
        knownSigners s @ [length (heap s)] \<and>
      devicePath (heap (fst (handleAttachedDevice st devices open_ok usbDevice s)) ! length (heap s)) = p \<and>
      disconnections (fst (handleAttachedDevice st devices open_ok usbDevice s)) = disconnections s \<and>
      timers (fst (handleAttachedDevice st devices open_ok usbDevice s)) = timers s) \<and>
   (unowned_paths devices (known_paths s) = [] \<longrightarrow>
      handleAttachedDevice st devices open_ok usbDevice s =
        (if disconnections s = [] then (s, [Log_error])
         else attach_resolved st open_ok usbDevice (pd_devicePath (last (disconnections s)))
                (s\<lparr>disconnections := butlast (disconnections s),
                   timers := clearTimeout (timeout (last (disconnections s))) (timers s)\<rparr>)))"
proof (intro conjI impI)
  assume a: "unowned_paths devices (known_paths s) = p # ps \<and>
    (\<forall>d\<in>set (takeWhile (\<lambda>d. \<not> has_unowned_path (known_paths s) d) devices).
        path d \<noteq> None \<and> path d \<noteq> Some [])"
  then have g: "getAttachedDevicePath devices (known_paths s) = p"
    using getAttachedDevicePath_first_unowned [of "known_paths s" devices p ps] by blast
  have "p \<in> set (unowned_paths devices (known_paths s))" using a by simp
  then have p: "p \<noteq> []" "p \<notin> set (known_paths s)"
    using unowned_paths_are_unowned by blast+
  show eq: "handleAttachedDevice st devices open_ok usbDevice s =
        attach_resolved st open_ok usbDevice p s"
    using g p(1) by (simp add: handleAttachedDevice_def Let_def known_paths_def)
  show "knownSigners (fst (handleAttachedDevice st devices open_ok usbDevice s)) =
        knownSigners s @ [length (heap s)]"
    using attach_resolved_new [OF p(2)] eq by simp
  show "devicePath (heap (fst (handleAttachedDevice st devices open_ok usbDevice s)) ! length (heap s)) = p"
    using attach_resolved_new [OF p(2)] eq by simp
  show "disconnections (fst (handleAttachedDevice st devices open_ok usbDevice s)) = disconnections s"
    using attach_resolved_tracking eq by simp
  show "timers (fst (handleAttachedDevice st devices open_ok usbDevice s)) = timers s"
    using attach_resolved_tracking eq by simp
next
  assume "unowned_paths devices (known_paths s) = []"
  then have "getAttachedDevicePath devices (known_paths s) = []"
    by (rule getAttachedDevicePath_none_unowned)
  then show "handleAttachedDevice st devices open_ok usbDevice s =
        (if disconnections s = [] then (s, [Log_error])
         else attach_resolved st open_ok usbDevice (pd_devicePath (last (disconnections s)))
                (s\<lparr>disconnections := butlast (disconnections s),
                   timers := clearTimeout (timeout (last (disconnections s))) (timers s)\<rparr>))"
    by (simp add: handleAttachedDevice_def Let_def known_paths_def pop_def)
qed

theorem C10_first_unowned_path_witness:
  "unowned_paths [dev_A, dev_B] (known_paths state_A_detached) = [''/dev/B''] \<and>
   path dev_A \<noteq> None \<and> path dev_A \<noteq> Some [] \<and>
   takeWhile (\<lambda>d. \<not> has_unowned_path (known_paths state_A_detached) d) [dev_A, dev_B] = [dev_A] \<and>
   knownSigners (fst (handleAttachedDevice store_live [dev_A, dev_B] True nanoS state_A_detached)) = [0, 1] \<and>
   disconnections (fst (handleAttachedDevice store_live [dev_A, dev_B] True nanoS state_A_detached)) =
     disconnections state_A_detached \<and>
   unowned_paths [dev_A] (known_paths state_A_detached) = [] \<and>
   disconnections state_A_detached \<noteq> [] \<and>
   handleAttachedDevice store_live [dev_A] True nanoS state_A_detached =
     attach_resolved store_live True nanoS ''/dev/A''
       (state_A_detached\<lparr>disconnections := [], timers := []\<rparr>)"
proof -
  have u: "unowned_paths [dev_A, dev_B] (known_paths state_A_detached) = [''/dev/B'']"
    by (simp add: unowned_paths_def has_unowned_path_def map_filter_simps known_paths_def
        sample_defs state_defs more_state_defs)
  have t: "takeWhile (\<lambda>d. \<not> has_unowned_path (known_paths state_A_detached) d) [dev_A, dev_B] = [dev_A]"
    by (simp add: has_unowned_path_def known_paths_def sample_defs state_defs more_state_defs)
  have pa: "path dev_A \<noteq> None \<and> path dev_A \<noteq> Some []" by (simp add: dev_A_def)
  have n: "unowned_paths [dev_A] (known_paths state_A_detached) = []"
    by (simp add: unowned_paths_def has_unowned_path_def map_filter_simps known_paths_def
        sample_defs state_defs more_state_defs)
  have ds: "disconnections state_A_detached = [\<lparr>pd_devicePath = ''/dev/A'', timeout = 0\<rparr>]"
    "timers state_A_detached = [(0, 0)]" "knownSigners state_A_detached = [0]"
    "length (heap state_A_detached) = 1"
    by (simp_all add: state_A_detached_def)
  have b: "\<forall>d\<in>set (takeWhile (\<lambda>d. \<not> has_unowned_path (known_paths state_A_detached) d)
                       [dev_A, dev_B]). path d \<noteq> None \<and> path d \<noteq> Some []"
    unfolding t using pa by simp
  note first = C10_first_unowned_path [of "[dev_A, dev_B]" state_A_detached "''/dev/B''" "[]"
      store_live True nanoS, THEN conjunct1, rule_format, OF conjI [OF u b]]
  note second = C10_first_unowned_path [of "[dev_A]" state_A_detached _ _ store_live True nanoS,
      THEN conjunct2, rule_format, OF n]
  have k: "knownSigners (fst (handleAttachedDevice store_live [dev_A, dev_B] True nanoS state_A_detached)) = [0, 1]"
    using first [THEN conjunct2, THEN conjunct1] by (simp add: ds)
  have d: "disconnections (fst (handleAttachedDevice store_live [dev_A, dev_B] True nanoS state_A_detached)) =
     disconnections state_A_detached"
    using first [THEN conjunct2, THEN conjunct2, THEN conjunct2, THEN conjunct1] .
  have h: "handleAttachedDevice store_live [dev_A] True nanoS state_A_detached =
     attach_resolved store_live True nanoS ''/dev/A''
       (state_A_detached\<lparr>disconnections := [], timers := []\<rparr>)"
    using second by (simp add: ds clearTimeout_def)
  have ne: "disconnections state_A_detached \<noteq> []" using ds by simp
  from u pa t k d n ne h show ?thesis by blast
qed


end
